theory Spec2Isabelle
  imports Main "HOL-Library.Word"
begin

unbundle bit_operations_syntax

section \<open>The Improv Serial codec of \<^verbatim>\<open>src/src/improv.cpp\<close>\<close>

subsection \<open>Data model\<close>

text \<open>
  \<^verbatim>\<open>Command\<close> is an enumeration over \<^verbatim>\<open>uint8_t\<close>; the decoder obtains it by the cast
  \<^verbatim>\<open>(Command) data[0]\<close>, so every byte is a command value.
\<close>

type_synonym Command = "8 word"

text \<open>
  \<^verbatim>\<open>improv.h\<close> is not among the sources. The enumerators and constants that
  \<^verbatim>\<open>improv.cpp\<close> takes from it are the fields of this record, which every function
  of the model receives as its first argument. Nothing is assumed about their values.
\<close>

record header =
  UNKNOWN :: Command
  WIFI_SETTINGS :: Command
  CUSTOM :: Command
  BAD_CHECKSUM :: Command
  IMPROV_SERIAL_VERSION :: "8 word"
  TYPE_RPC :: "8 word"

text \<open>
  Modelled from the spec: the values of the constants of \<^verbatim>\<open>improv.h\<close> are missing, and the
  spec names the constants (an "unknown" sentinel, a "bad checksum" sentinel, a
  Wi-Fi-settings command, a custom command, one protocol version, an RPC frame type)
  without giving values. The closed examples below run the code on this sample header,
  whose command values are pairwise distinct; the general theorems hold for every header.
\<close>

definition improv_h :: header where
  "improv_h = \<lparr>UNKNOWN = 0x00, WIFI_SETTINGS = 0x01, CUSTOM = 0x05, BAD_CHECKSUM = 0xFF,
               IMPROV_SERIAL_VERSION = 0x01, TYPE_RPC = 0x03\<rparr>"

text \<open>Of the enumeration \<^verbatim>\<open>Error\<close> the source uses one enumerator.\<close>

datatype Error = ERROR_INVALID_RPC

text \<open>
  \<^verbatim>\<open>struct ImprovCommand { Command command; std::vector<std::vector<uint8_t>> data; }\<close>
  as the code uses it: \<^verbatim>\<open>command\<close> is assigned, \<^verbatim>\<open>data\<close> starts empty and grows by
  \<^verbatim>\<open>push_back\<close>.
\<close>

record ImprovCommand =
  command :: Command
  data :: "8 word list list"

subsection \<open>Memory reads and \<^verbatim>\<open>size_t\<close> arithmetic\<close>

text \<open>
  A pointer argument is modelled by the list of the bytes that may be read through it.
  A read at an index outside that list is undefined behaviour in C++; the model stops
  there with the fault \<open>OutOfBounds i\<close>, where \<open>i\<close> is the offending index relative to
  the pointer.
\<close>

datatype fault = OutOfBounds nat

definition rd :: "8 word list \<Rightarrow> nat \<Rightarrow> fault + 8 word" where
  "rd buf i = (if i < length buf then Inr (buf ! i) else Inl (OutOfBounds i))"

text \<open>The range constructor \<^verbatim>\<open>std::vector<uint8_t>(data + a, data + b)\<close> reads \<open>a..<b\<close>.\<close>

definition rd_range :: "8 word list \<Rightarrow> nat \<Rightarrow> nat \<Rightarrow> fault + 8 word list" where
  "rd_range buf a b =
     (if a < b \<and> length buf < b then Inl (OutOfBounds (max a (length buf)))
      else Inr (take (b - a) (drop a buf)))"

text \<open>
  Subtraction on \<^verbatim>\<open>size_t\<close> wraps around below zero; \<^verbatim>\<open>size_t\<close> is taken with 64
  bits. Sizes are natural numbers below \<open>2 ^ 64\<close>; no addition of the code can reach
  that bound, so only the subtractions carry the wrap-around. (The code compares a
  wrapped difference only with a byte, which it exceeds at every width of \<^verbatim>\<open>size_t\<close>
  from 16 bits on.)
\<close>

definition size_sub :: "nat \<Rightarrow> nat \<Rightarrow> nat" where
  "size_sub a b = (if b \<le> a then a - b else a + 2 ^ 64 - b)"

subsection \<open>\<^verbatim>\<open>parse_improv_data\<close>\<close>

text \<open>
  The summation loop of lines 25 to 28,
  \<^verbatim>\<open>for (uint8_t i = 0; i < length - 1; i++) calculated_checksum += data[i];\<close>
  The counter is a byte and wraps from 255 to 0, the accumulator has 32 bits, and
  \<open>bound\<close> is the \<^verbatim>\<open>size_t\<close> value \<^verbatim>\<open>length - 1\<close>. The loop may run forever, which is the
  value \<open>None\<close>.
\<close>

partial_function (option) checksum_loop ::
  "8 word list \<Rightarrow> nat \<Rightarrow> 8 word \<Rightarrow> 32 word \<Rightarrow> (fault + 32 word) option" where
  "checksum_loop dat bound i calculated_checksum =
     (if unat i < bound then
        (case rd dat (unat i) of
           Inl e \<Rightarrow> Some (Inl e)
         | Inr b \<Rightarrow> checksum_loop dat bound (i + 1) (calculated_checksum + ucast b))
      else Some (Inr calculated_checksum))"

declare checksum_loop.simps [code]

text \<open>
  The segment loop of lines 38 to 66; \<open>bound\<close> is \<^verbatim>\<open>length - checksum_offset\<close>. Each of
  the three framing checks sets the command to \<^verbatim>\<open>UNKNOWN\<close> and returns the command
  object as it is at that moment.
\<close>

function segment_loop ::
  "header \<Rightarrow> 8 word list \<Rightarrow> nat \<Rightarrow> nat \<Rightarrow> ImprovCommand \<Rightarrow> fault + ImprovCommand" where
  "segment_loop h dat bound position improv_command =
     (if position < bound then
        (if position + 1 > bound then Inr (improv_command\<lparr>command := UNKNOWN h\<rparr>)
         else
           (case rd dat position of
              Inl e \<Rightarrow> Inl e
            | Inr segment_length \<Rightarrow>
                if unat segment_length > size_sub (size_sub bound position) 1
                then Inr (improv_command\<lparr>command := UNKNOWN h\<rparr>)
                else
                  let segment_start = position + 1;
                      segment_end = segment_start + unat segment_length
                  in
                  if segment_end > bound
                  then Inr (improv_command\<lparr>command := UNKNOWN h\<rparr>)
                  else
                    (case rd_range dat segment_start segment_end of
                       Inl e \<Rightarrow> Inl e
                     | Inr segment \<Rightarrow>
                         segment_loop h dat bound segment_end
                           (improv_command\<lparr>data := data improv_command @ [segment]\<rparr>))))
      else Inr improv_command)"
  by pat_completeness auto
termination
  by (relation "measure (\<lambda>(h, dat, bound, position, improv_command). bound - position)") auto

declare segment_loop.simps [simp del]

text \<open>
  Lines 36 to 72: the segment loop for the two commands that carry segments, the plain
  command otherwise.
\<close>

definition parse_segments ::
  "header \<Rightarrow> 8 word list \<Rightarrow> nat \<Rightarrow> nat \<Rightarrow> Command \<Rightarrow> ImprovCommand \<Rightarrow>
     fault + ImprovCommand" where
  "parse_segments h dat len checksum_offset cmd improv_command =
     (if cmd = WIFI_SETTINGS h \<or> cmd = CUSTOM h
      then segment_loop h dat (size_sub len checksum_offset) 2 improv_command
      else Inr (improv_command\<lparr>command := cmd\<rparr>))"

text \<open>
  The pointer overload (line 10). \<open>dat\<close> holds the bytes readable through \<^verbatim>\<open>data\<close>,
  \<open>len\<close> is the argument \<^verbatim>\<open>length\<close>. The result is \<open>None\<close> when the call does not
  return, \<open>Some (Inl f)\<close> when it reads outside \<open>dat\<close>, and \<open>Some (Inr c)\<close> when it
  returns the command \<open>c\<close>.
\<close>

definition parse_improv_data ::
  "header \<Rightarrow> 8 word list \<Rightarrow> nat \<Rightarrow> bool \<Rightarrow> (fault + ImprovCommand) option" where
  "parse_improv_data h dat len check_checksum =
     (case rd dat 0 of
        Inl e \<Rightarrow> Some (Inl e)
      | Inr cmd \<Rightarrow>
     (case rd dat 1 of
        Inl e \<Rightarrow> Some (Inl e)
      | Inr data_length \<Rightarrow>
          let improv_command = \<lparr>command = cmd, data = []\<rparr>;
              checksum_offset = (if check_checksum then 1 else 0 :: nat)
          in
          if unat data_length \<noteq> size_sub (size_sub len 2) checksum_offset
          then Some (Inr (improv_command\<lparr>command := UNKNOWN h\<rparr>))
          else if check_checksum then
            (case rd dat (size_sub len 1) of
               Inl e \<Rightarrow> Some (Inl e)
             | Inr checksum \<Rightarrow>
            (case checksum_loop dat (size_sub len 1) 0 0 of
               None \<Rightarrow> None
             | Some (Inl e) \<Rightarrow> Some (Inl e)
             | Some (Inr calculated_checksum) \<Rightarrow>
                 if (ucast calculated_checksum :: 8 word) \<noteq> checksum
                 then Some (Inr (improv_command\<lparr>command := BAD_CHECKSUM h\<rparr>))
                 else Some (parse_segments h dat len checksum_offset cmd improv_command)))
          else Some (parse_segments h dat len checksum_offset cmd improv_command)))"

text \<open>The vector overload (line 6) passes \<^verbatim>\<open>data.data()\<close> and \<^verbatim>\<open>data.size()\<close>.\<close>

definition parse_improv_data_vec ::
  "header \<Rightarrow> 8 word list \<Rightarrow> bool \<Rightarrow> (fault + ImprovCommand) option" where
  "parse_improv_data_vec h dat check_checksum =
     parse_improv_data h dat (length dat) check_checksum"

subsection \<open>\<^verbatim>\<open>parse_improv_serial_byte\<close>\<close>

text \<open>A character literal of the source, as the byte it is compared with.\<close>

definition ascii :: "char \<Rightarrow> 8 word" where
  "ascii c = of_nat (of_char c)"

text \<open>
  What the two callbacks were called with, in call order. \<^verbatim>\<open>callback\<close> returns a
  \<^verbatim>\<open>bool\<close>, which the function passes on; \<^verbatim>\<open>on_error\<close> returns nothing.
\<close>

datatype event = Callback ImprovCommand | OnError Error

text \<open>
  Lines 103 to 105,
  \<^verbatim>\<open>for (size_t i = 0; i < position; i++) checksum += buffer[i];\<close>
  with a byte accumulator.
\<close>

function serial_checksum_loop :: "8 word list \<Rightarrow> nat \<Rightarrow> nat \<Rightarrow> 8 word \<Rightarrow> fault + 8 word" where
  "serial_checksum_loop buffer position i checksum =
     (if i < position then
        (case rd buffer i of
           Inl e \<Rightarrow> Inl e
         | Inr b \<Rightarrow> serial_checksum_loop buffer position (i + 1) (checksum + b))
      else Inr checksum)"
  by pat_completeness auto
termination
  by (relation "measure (\<lambda>(buffer, position, i, checksum). position - i)") auto

declare serial_checksum_loop.simps [simp del]

text \<open>
  \<open>buffer\<close> holds the bytes readable through the pointer \<^verbatim>\<open>buffer\<close>. The result pairs
  the returned \<^verbatim>\<open>bool\<close> with the callback calls made; \<^verbatim>\<open>&buffer[9]\<close> is the buffer
  without its first nine bytes.
\<close>

definition parse_improv_serial_byte ::
  "header \<Rightarrow> nat \<Rightarrow> 8 word \<Rightarrow> 8 word list \<Rightarrow> (ImprovCommand \<Rightarrow> bool) \<Rightarrow>
     (fault + bool \<times> event list) option" where
  "parse_improv_serial_byte h position byte buffer callback =
     (if position = 0 then Some (Inr (byte = ascii CHR ''I'', []))
      else if position = 1 then Some (Inr (byte = ascii CHR ''M'', []))
      else if position = 2 then Some (Inr (byte = ascii CHR ''P'', []))
      else if position = 3 then Some (Inr (byte = ascii CHR ''R'', []))
      else if position = 4 then Some (Inr (byte = ascii CHR ''O'', []))
      else if position = 5 then Some (Inr (byte = ascii CHR ''V'', []))
      else if position = 6 then Some (Inr (byte = IMPROV_SERIAL_VERSION h, []))
      else if position \<le> 8 then Some (Inr (True, []))
      else
        (case rd buffer 7 of
           Inl e \<Rightarrow> Some (Inl e)
         | Inr typ \<Rightarrow>
        (case rd buffer 8 of
           Inl e \<Rightarrow> Some (Inl e)
         | Inr data_len \<Rightarrow>
             if position \<le> 8 + unat data_len then Some (Inr (True, []))
             else if position = 8 + unat data_len + 1 then
               (case serial_checksum_loop buffer position 0 0 of
                  Inl e \<Rightarrow> Some (Inl e)
                | Inr checksum \<Rightarrow>
                    if checksum \<noteq> byte then Some (Inr (False, [OnError ERROR_INVALID_RPC]))
                    else if typ = TYPE_RPC h then
                      (case parse_improv_data h (drop 9 buffer) (unat data_len) False of
                         None \<Rightarrow> None
                       | Some (Inl e) \<Rightarrow> Some (Inl e)
                       | Some (Inr cmd) \<Rightarrow> Some (Inr (callback cmd, [Callback cmd])))
                    else Some (Inr (False, [])))
             else Some (Inr (False, [])))))"

subsection \<open>\<^verbatim>\<open>build_rpc_response\<close>\<close>

text \<open>
  A \<^verbatim>\<open>std::string\<close> is the list of its bytes. Writes into the output vector are
  checked against its size like the reads above.
\<close>

definition wr :: "8 word list \<Rightarrow> nat \<Rightarrow> 8 word \<Rightarrow> fault + 8 word list" where
  "wr out i v = (if i < length out then Inr (out[i := v]) else Inl (OutOfBounds i))"

definition memcpy :: "8 word list \<Rightarrow> nat \<Rightarrow> 8 word list \<Rightarrow> fault + 8 word list" where
  "memcpy out pos src =
     (if pos + length src \<le> length out
      then Inr (take pos out @ src @ drop (pos + length src) out)
      else Inl (OutOfBounds (max pos (length out))))"

text \<open>Lines 138 to 143: the length byte of each string, then its bytes.\<close>

fun copy_datum :: "8 word list list \<Rightarrow> 8 word list \<Rightarrow> nat \<Rightarrow> fault + 8 word list \<times> nat" where
  "copy_datum [] out pos = Inr (out, pos)"
| "copy_datum (str # rest) out pos =
     (case wr out pos (of_nat (length str)) of
        Inl e \<Rightarrow> Inl e
      | Inr out1 \<Rightarrow>
     (case memcpy out1 (pos + 1) str of
        Inl e \<Rightarrow> Inl e
      | Inr out2 \<Rightarrow> copy_datum rest out2 (pos + 1 + length str)))"

text \<open>
  Lines 148 to 155: a 32-bit sum over the whole vector, the last byte included (it is
  still 0), masked to its low byte.
\<close>

definition response_checksum :: "8 word list \<Rightarrow> 8 word" where
  "response_checksum out = ucast (foldl (\<lambda>acc b. acc + ucast b) (0 :: 32 word) out AND 0xFF)"

definition build_rpc_response :: "Command \<Rightarrow> 8 word list list \<Rightarrow> bool \<Rightarrow> fault + 8 word list" where
  "build_rpc_response cmd datum add_checksum =
     (let frame_length = foldl (\<lambda>n str. n + length str) (3 + length datum) datum;
          out = replicate frame_length (0 :: 8 word)
      in
      case wr out 0 cmd of
        Inl e \<Rightarrow> Inl e
      | Inr out0 \<Rightarrow>
     (case copy_datum datum out0 2 of
        Inl e \<Rightarrow> Inl e
      | Inr (out1, pos) \<Rightarrow>
     (case wr out1 1 (of_nat (pos - 2)) of
        Inl e \<Rightarrow> Inl e
      | Inr out2 \<Rightarrow>
          if add_checksum
          then wr out2 (frame_length - 1) (response_checksum out2)
          else Inr out2)))"

section \<open>Properties\<close>

subsection \<open>Notions used to state the properties\<close>

text \<open>
  What \<^verbatim>\<open>build_rpc_response\<close> lays out between the two header bytes and the checksum
  slot: for each string its length byte, then its bytes.
\<close>

definition encode_fields :: "8 word list list \<Rightarrow> 8 word list" where
  "encode_fields datum = concat (map (\<lambda>str. of_nat (length str) # str) datum)"

text \<open>
  The cumulative payload of a list of strings: one length byte for each, plus their bytes.
\<close>

definition payload_length :: "8 word list list \<Rightarrow> nat" where
  "payload_length datum = length datum + sum_list (map length datum)"

text \<open>
  The frame that \<^verbatim>\<open>build_rpc_response\<close> is shown to return (lemma
  \<open>build_rpc_response_eq\<close> below): command, payload length, the encoded strings, and the
  checksum slot.
\<close>

definition response_frame :: "Command \<Rightarrow> 8 word list list \<Rightarrow> bool \<Rightarrow> 8 word list" where
  "response_frame cmd datum add_checksum =
     [cmd, of_nat (payload_length datum)] @ encode_fields datum @
     [if add_checksum then cmd + of_nat (payload_length datum) + sum_list (encode_fields datum)
      else 0]"

text \<open>
  \<^verbatim>\<open>parse_improv_data(build_rpc_response(command, datum, add_checksum), check_checksum)\<close>.
\<close>

definition decode_response ::
  "header \<Rightarrow> Command \<Rightarrow> 8 word list list \<Rightarrow> bool \<Rightarrow> bool \<Rightarrow> (fault + ImprovCommand) option" where
  "decode_response h cmd datum add_checksum check_checksum =
     (case build_rpc_response cmd datum add_checksum of
        Inl e \<Rightarrow> Some (Inl e)
      | Inr out \<Rightarrow> parse_improv_data_vec h out check_checksum)"

text \<open>
  The payload region of a frame: the bytes that the length byte declares, after the two
  header bytes.
\<close>

definition payload :: "8 word list \<Rightarrow> 8 word list" where
  "payload dat = take (unat (dat ! 1)) (drop 2 dat)"

text \<open>
  A segment-framing violation, in the words of the specification: walking the payload
  segment by segment, some length byte declares more bytes than remain after it.
  \<open>segments_before\<close> lists the segments that precede the first violation (all of them
  when there is none).
\<close>

fun framing_violation :: "8 word list \<Rightarrow> bool" where
  "framing_violation [] = False"
| "framing_violation (l # rest) =
     (unat l > length rest \<or> framing_violation (drop (unat l) rest))"

fun segments_before :: "8 word list \<Rightarrow> 8 word list list" where
  "segments_before [] = []"
| "segments_before (l # rest) =
     (if unat l > length rest then []
      else take (unat l) rest # segments_before (drop (unat l) rest))"

text \<open>
  Flipping bit \<open>k\<close> of byte \<open>i\<close> of a frame.
\<close>

definition flip_frame_bit :: "8 word list \<Rightarrow> nat \<Rightarrow> nat \<Rightarrow> 8 word list" where
  "flip_frame_bit dat i k = dat[i := flip_bit k (dat ! i)]"

text \<open>
  A checksummed frame is accepted when the decoder returns a command that is neither of
  the two sentinels.
\<close>

definition accepts :: "header \<Rightarrow> 8 word list \<Rightarrow> bool" where
  "accepts h dat =
     (case parse_improv_data_vec h dat True of
        Some (Inr r) \<Rightarrow> command r \<noteq> UNKNOWN h \<and> command r \<noteq> BAD_CHECKSUM h
      | _ \<Rightarrow> False)"

text \<open>
  The stream that carries an RPC payload, up to but excluding the checksum byte: the
  magic, the version, \<^verbatim>\<open>TYPE_RPC\<close>, the payload length and the payload.
\<close>

definition rpc_stream :: "header \<Rightarrow> 8 word list \<Rightarrow> 8 word list" where
  "rpc_stream h rpc =
     map ascii ''IMPROV'' @ [IMPROV_SERIAL_VERSION h, TYPE_RPC h, of_nat (length rpc)] @ rpc"

subsection \<open>Bytes and sizes\<close>

lemma unat_byte_less: "unat (i :: 8 word) < 256"
  using unsigned_less [of i] by simp

lemma unat_of_nat_byte: "unat (of_nat n :: 8 word) = n mod 256"
  by (simp add: unat_of_nat)

lemma size_sub_frame:
  "3 \<le> n \<Longrightarrow> size_sub (n - 2) 1 = n - 3"
  "3 \<le> n \<Longrightarrow> size_sub (n - 2) (Suc 0) = n - 3"
  by (simp_all add: size_sub_def)

lemma ucast_add_32_8: "(ucast (a + b :: 32 word) :: 8 word) = ucast a + ucast b"
proof -
  have "(256::nat) dvd 4294967296" by simp
  then have "(unat a + unat b) mod 4294967296 mod 256 = (unat a + unat b) mod 256"
    by (rule mod_mod_cancel)
  then show ?thesis
    by (simp add: word_eq_iff_unsigned [where ?'a = nat] unsigned_ucast_eq unat_word_ariths
        take_bit_eq_mod mod_simps)
qed

lemma ucast_8_32_8: "(ucast (ucast (b :: 8 word) :: 32 word) :: 8 word) = b"
  by (simp add: ucast_up_ucast_id is_up)

lemma ucast_and_ff: "(ucast (x AND 0xFF :: 32 word) :: 8 word) = ucast x"
proof -
  have m: "(0xFF :: 32 word) = mask 8" by (simp add: mask_eq_exp_minus_1)
  show ?thesis unfolding m
    by (rule bit_word_eqI) (auto simp: bit_simps)
qed

lemma foldl_ucast_sum:
  "(ucast (foldl (\<lambda>acc b. acc + ucast b) (a :: 32 word) (xs :: 8 word list)) :: 8 word)
     = ucast a + sum_list xs"
  by (induction xs arbitrary: a) (simp_all add: ucast_add_32_8 ucast_8_32_8 add.assoc)

lemma sum_list_update_word:
  "i < length xs \<Longrightarrow> sum_list (xs[i := v]) = sum_list xs - xs ! i + (v :: 8 word)"
proof (induction xs arbitrary: i)
  case Nil
  then show ?case by simp
next
  case (Cons x xs)
  then show ?case by (cases i) simp_all
qed

lemma flip_bit_byte_neq:
  assumes "k < 8" shows "flip_bit k (x :: 8 word) \<noteq> x"
proof
  assume "flip_bit k x = x"
  then have "bit (flip_bit k x) k = bit x k" by simp
  with assms show False by (simp add: bit_flip_bit_iff)
qed

subsection \<open>The checksum loop of \<^verbatim>\<open>parse_improv_data\<close>\<close>

text \<open>
  With a bound of 256 or more the byte counter never reaches the bound: the loop has no
  result. With a bound of at most 255 it returns the sum of the bytes below the bound.
\<close>

lemma checksum_loop_no_result:
  assumes "checksum_loop dat bound i acc = Some r"
  shows "\<not> (256 \<le> bound \<and> 256 \<le> length dat)"
proof (rule checksum_loop.raw_induct
    [where P = "\<lambda>dat bound i acc r. \<not> (256 \<le> bound \<and> 256 \<le> length dat)", OF _ assms])
  fix f :: "8 word list \<Rightarrow> nat \<Rightarrow> 8 word \<Rightarrow> 32 word \<Rightarrow> (fault + 32 word) option"
  fix dat bound i acc r
  assume IH: "\<And>dat bound i acc r. f dat bound i acc = Some r \<Longrightarrow>
                 \<not> (256 \<le> bound \<and> 256 \<le> length dat)"
    and step: "(if unat i < bound
                then case rd dat (unat i) of Inl e \<Rightarrow> Some (Inl e)
                     | Inr b \<Rightarrow> f dat bound (i + 1) (acc + ucast b)
                else Some (Inr acc)) = Some r"
  show "\<not> (256 \<le> bound \<and> 256 \<le> length dat)"
  proof
    assume big: "256 \<le> bound \<and> 256 \<le> length dat"
    with unat_byte_less [of i] have "unat i < bound" "unat i < length dat" by simp_all
    with step have "f dat bound (i + 1) (acc + ucast (dat ! unat i)) = Some r"
      by (simp add: rd_def)
    from IH [OF this] big show False by simp
  qed
qed

lemma checksum_loop_diverges:
  "256 \<le> bound \<Longrightarrow> 256 \<le> length dat \<Longrightarrow> checksum_loop dat bound i acc = None"
  using checksum_loop_no_result [of dat bound i acc] by (cases "checksum_loop dat bound i acc") auto

lemma checksum_loop_returns:
  "bound \<le> 255 \<Longrightarrow> bound \<le> length dat \<Longrightarrow> unat i \<le> bound \<Longrightarrow>
   \<exists>r. checksum_loop dat bound i acc = Some (Inr r) \<and>
       (ucast r :: 8 word) = ucast acc + sum_list (drop (unat i) (take bound dat))"
proof (induction "bound - unat i" arbitrary: i acc)
  case 0
  then have "unat i = bound" by simp
  then show ?case by (subst checksum_loop.simps) simp
next
  case (Suc n)
  then have lt: "unat i < bound" by simp
  with Suc.prems have u: "unat (i + 1) = unat i + 1"
    by (simp add: unat_word_ariths)
  have "n = bound - unat (i + 1)" using Suc.hyps(2) u by simp
  moreover have "unat (i + 1) \<le> bound" using lt u by simp
  ultimately obtain r where r: "checksum_loop dat bound (i + 1) (acc + ucast (dat ! unat i)) = Some (Inr r)"
    "(ucast r :: 8 word) = ucast (acc + ucast (dat ! unat i)) + sum_list (drop (unat (i + 1)) (take bound dat))"
    using Suc.hyps(1) [of "i + 1" "acc + ucast (dat ! unat i)"] Suc.prems by blast
  have d: "drop (unat i) (take bound dat) = dat ! unat i # drop (unat i + 1) (take bound dat)"
    using lt Suc.prems(2) by (simp add: Cons_nth_drop_Suc [symmetric])
  show ?case
    using lt Suc.prems(2) r
    by (subst checksum_loop.simps) (simp add: rd_def u d ucast_add_32_8 ucast_8_32_8 add.assoc)
qed

subsection \<open>The stages of \<^verbatim>\<open>parse_improv_data\<close>\<close>

lemma rd_in: "i < length buf \<Longrightarrow> rd buf i = Inr (buf ! i)"
  by (simp add: rd_def)

lemma parse_vec_unfold:
  assumes "2 \<le> length dat"
  shows "parse_improv_data_vec h dat check_checksum =
     (let improv_command = \<lparr>command = dat ! 0, data = []\<rparr>;
          checksum_offset = (if check_checksum then 1 else 0 :: nat)
      in
      if unat (dat ! 1) \<noteq> size_sub (length dat - 2) checksum_offset
      then Some (Inr (improv_command\<lparr>command := UNKNOWN h\<rparr>))
      else if check_checksum then
        (case checksum_loop dat (length dat - 1) 0 0 of
           None \<Rightarrow> None
         | Some (Inl e) \<Rightarrow> Some (Inl e)
         | Some (Inr calculated_checksum) \<Rightarrow>
             if (ucast calculated_checksum :: 8 word) \<noteq> last dat
             then Some (Inr (improv_command\<lparr>command := BAD_CHECKSUM h\<rparr>))
             else Some (parse_segments h dat (length dat) checksum_offset (dat ! 0) improv_command))
      else Some (parse_segments h dat (length dat) checksum_offset (dat ! 0) improv_command))"
proof -
  have ne: "dat \<noteq> []"
    using assms by auto
  have r: "rd dat 0 = Inr (dat ! 0)" "rd dat (Suc 0) = Inr (dat ! 1)"
    "rd dat (length dat - Suc 0) = Inr (last dat)"
    using assms ne by (auto simp: rd_def last_conv_nth)
  have s: "size_sub (length dat) 2 = length dat - 2" "size_sub (length dat) (Suc 0) = length dat - 1"
    using assms by (simp_all add: size_sub_def)
  show ?thesis
    unfolding parse_improv_data_vec_def parse_improv_data_def
    by (simp add: r s Let_def)
qed

lemma parse_vec_diverges:
  assumes "257 \<le> length dat" and "unat (dat ! 1) = length dat - 3"
  shows "parse_improv_data_vec h dat True = None"
proof -
  have "checksum_loop dat (length dat - 1) 0 0 = None"
    using assms(1) by (intro checksum_loop_diverges) simp_all
  moreover have "size_sub (length dat - 2) 1 = length dat - 3"
    using assms(1) by (simp add: size_sub_def)
  ultimately show ?thesis
    using assms by (simp add: parse_vec_unfold Let_def)
qed

lemma parse_vec_checked:
  assumes "3 \<le> length dat" and "length dat \<le> 256" and "unat (dat ! 1) = length dat - 3"
  shows "parse_improv_data_vec h dat True =
     (if sum_list (butlast dat) \<noteq> last dat
      then Some (Inr \<lparr>command = BAD_CHECKSUM h, data = []\<rparr>)
      else Some (parse_segments h dat (length dat) 1 (dat ! 0) \<lparr>command = dat ! 0, data = []\<rparr>))"
proof -
  have "\<exists>r. checksum_loop dat (length dat - 1) 0 0 = Some (Inr r) \<and>
       (ucast r :: 8 word) = ucast (0 :: 32 word) +
          sum_list (drop (unat (0 :: 8 word)) (take (length dat - 1) dat))"
    by (rule checksum_loop_returns) (use assms in simp_all)
  then obtain r where r: "checksum_loop dat (length dat - 1) 0 0 = Some (Inr r)"
    "(ucast r :: 8 word) = ucast (0 :: 32 word) +
       sum_list (drop (unat (0 :: 8 word)) (take (length dat - 1) dat))"
    by blast
  have s: "(ucast r :: 8 word) = sum_list (butlast dat)"
    using r(2) by (simp add: butlast_conv_take)
  have o: "size_sub (length dat - 2) 1 = length dat - 3"
    using assms(1) by (simp add: size_sub_def)
  show ?thesis
    using assms o r(1) s by (simp add: parse_vec_unfold Let_def)
qed

lemma parse_vec_unchecked:
  assumes "2 \<le> length dat" and "unat (dat ! 1) = length dat - 2"
  shows "parse_improv_data_vec h dat False =
     Some (parse_segments h dat (length dat) 0 (dat ! 0) \<lparr>command = dat ! 0, data = []\<rparr>)"
  using assms by (simp add: parse_vec_unfold Let_def size_sub_def)

lemma parse_short_buffer:
  "length dat < 2 \<Longrightarrow>
   parse_improv_data h dat len check_checksum = Some (Inl (OutOfBounds (length dat)))"
  by (cases dat) (auto simp: parse_improv_data_def rd_def)

lemma parse_short_length:
  assumes "2 \<le> length dat" and "len < 2"
  shows "parse_improv_data h dat len False = Some (Inr \<lparr>command = UNKNOWN h, data = []\<rparr>)"
proof -
  have r: "rd dat 0 = Inr (dat ! 0)" "rd dat (Suc 0) = Inr (dat ! 1)"
    using assms(1) by (auto simp: rd_def)
  have "unat (dat ! 1) \<noteq> size_sub (size_sub len 2) 0"
    using assms(2) unat_byte_less [of "dat ! 1"] by (simp add: size_sub_def)
  then show ?thesis
    by (simp add: parse_improv_data_def r Let_def)
qed

subsection \<open>The segment loop\<close>

lemma segment_loop_done:
  "bound \<le> position \<Longrightarrow> segment_loop h dat bound position ic = Inr ic"
  by (subst segment_loop.simps) simp

lemma segment_loop_eq:
  assumes "bound \<le> length dat" and "position \<le> bound"
  shows "segment_loop h dat bound position ic =
     Inr (if framing_violation (drop position (take bound dat))
          then ic\<lparr>command := UNKNOWN h,
                  data := data ic @ segments_before (drop position (take bound dat))\<rparr>
          else ic\<lparr>data := data ic @ segments_before (drop position (take bound dat))\<rparr>)"
  using assms
proof (induction "bound - position" arbitrary: position ic rule: less_induct)
  case less
  show ?case
  proof (cases "position < bound")
    case False
    with less.prems have "position = bound" by simp
    then show ?thesis
      by (subst segment_loop.simps) simp
  next
    case True
    let ?sl = "unat (dat ! position)"
    let ?rest = "drop (position + 1) (take bound dat)"
    have pay: "drop position (take bound dat) = dat ! position # ?rest"
      using True less.prems by (simp add: Cons_nth_drop_Suc [symmetric])
    have lr: "length ?rest = bound - position - 1"
      using less.prems by simp
    have rdp: "rd dat position = Inr (dat ! position)"
      using True less.prems by (simp add: rd_def)
    have ss: "size_sub (size_sub bound position) 1 = bound - position - 1"
      using True by (simp add: size_sub_def)
    show ?thesis
    proof (cases "?sl > bound - position - 1")
      case big: True
      then show ?thesis
        using True rdp ss pay lr
        by (subst segment_loop.simps) simp
    next
      case fits: False
      let ?e = "position + 1 + ?sl"
      have e: "?e \<le> bound" using fits True by simp
      have rr: "rd_range dat (position + 1) ?e = Inr (take ?sl ?rest)"
        using e less.prems by (simp add: rd_range_def drop_take min_def)
      have dr: "drop ?e (take bound dat) = drop ?sl ?rest"
        by (simp add: add.commute)
      have "segment_loop h dat bound ?e (ic\<lparr>data := data ic @ [take ?sl ?rest]\<rparr>) =
         Inr (if framing_violation (drop ?e (take bound dat))
          then (ic\<lparr>data := data ic @ [take ?sl ?rest]\<rparr>)\<lparr>command := UNKNOWN h,
                  data := data (ic\<lparr>data := data ic @ [take ?sl ?rest]\<rparr>)
                     @ segments_before (drop ?e (take bound dat))\<rparr>
          else (ic\<lparr>data := data ic @ [take ?sl ?rest]\<rparr>)\<lparr>data :=
                  data (ic\<lparr>data := data ic @ [take ?sl ?rest]\<rparr>)
                     @ segments_before (drop ?e (take bound dat))\<rparr>)"
        using less.prems(1) e True by (intro less.hyps) simp_all
      then show ?thesis
        using True fits rdp ss pay lr e rr dr
        by (subst segment_loop.simps) (simp add: Let_def)
    qed
  qed
qed

subsection \<open>Where \<^verbatim>\<open>parse_improv_data\<close> returns\<close>

text \<open>
  On a vector of at least two bytes the decoder returns a command, without reading
  outside the vector, except on the frames of 257 and 258 bytes whose length byte
  matches and whose checksum is to be verified.
\<close>

lemma parse_segments_returns:
  assumes "size_sub len off \<le> length dat" and "2 \<le> size_sub len off"
  shows "\<exists>r. parse_segments h dat len off cmd ic = Inr r"
  using assms by (simp add: parse_segments_def segment_loop_eq)

lemma parse_vec_returns:
  assumes "2 \<le> length dat"
    and "\<not> (check_checksum \<and> 257 \<le> length dat \<and> unat (dat ! 1) + 3 = length dat)"
  shows "\<exists>r. parse_improv_data_vec h dat check_checksum = Some (Inr r)"
proof (cases "unat (dat ! 1) + 2 + (if check_checksum then 1 else 0) = length dat")
  case False
  then have "unat (dat ! 1) \<noteq> size_sub (length dat - 2) (if check_checksum then 1 else 0)"
    using assms(1) unat_byte_less [of "dat ! 1"] by (auto simp: size_sub_def)
  then show ?thesis
    using assms(1) by (simp add: parse_vec_unfold Let_def)
next
  case ok: True
  show ?thesis
  proof (cases check_checksum)
    case True
    with ok assms(2) have "3 \<le> length dat" "length dat \<le> 256" "unat (dat ! 1) = length dat - 3"
      by simp_all
    moreover have "\<exists>r. parse_segments h dat (length dat) 1 (dat ! 0)
                     \<lparr>command = dat ! 0, data = []\<rparr> = Inr r"
      using \<open>3 \<le> length dat\<close> by (intro parse_segments_returns) (simp_all add: size_sub_def)
    ultimately show ?thesis
      using True by (auto simp: parse_vec_checked)
  next
    case False
    with ok have "unat (dat ! 1) = length dat - 2" by simp
    moreover have "\<exists>r. parse_segments h dat (length dat) 0 (dat ! 0)
                     \<lparr>command = dat ! 0, data = []\<rparr> = Inr r"
      using assms(1) by (intro parse_segments_returns) (simp_all add: size_sub_def)
    ultimately show ?thesis
      using False assms(1) by (auto simp: parse_vec_unchecked)
  qed
qed

subsection \<open>The frame built by \<^verbatim>\<open>build_rpc_response\<close>\<close>

lemma response_checksum_eq: "response_checksum out = sum_list out"
  by (simp add: response_checksum_def ucast_and_ff foldl_ucast_sum)

lemma length_encode_fields: "length (encode_fields datum) = payload_length datum"
  by (induction datum) (simp_all add: encode_fields_def payload_length_def)

lemma encode_fields_Cons:
  "encode_fields (str # rest) = of_nat (length str) # str @ encode_fields rest"
  by (simp add: encode_fields_def)

lemma frame_length_eq:
  "foldl (\<lambda>n str. n + length str) k datum = k + sum_list (map length datum)"
  by (induction datum arbitrary: k) simp_all

lemma copy_datum_ok:
  "pos + payload_length datum \<le> length out \<Longrightarrow>
   copy_datum datum out pos =
     Inr (take pos out @ encode_fields datum @ drop (pos + payload_length datum) out,
          pos + payload_length datum)"
proof (induction datum arbitrary: out pos)
  case Nil
  then show ?case by (simp add: encode_fields_def payload_length_def)
next
  case (Cons str rest)
  have pl: "payload_length (str # rest) = 1 + length str + payload_length rest"
    by (simp add: payload_length_def)
  let ?out1 = "out[pos := of_nat (length str)]"
  let ?out2 = "take (pos + 1) ?out1 @ str @ drop (pos + 1 + length str) ?out1"
  have w: "wr out pos (of_nat (length str)) = Inr ?out1"
    using Cons.prems pl by (simp add: wr_def)
  have m: "memcpy ?out1 (pos + 1) str = Inr ?out2"
    using Cons.prems pl by (simp add: memcpy_def)
  have len2: "length ?out2 = length out"
    using Cons.prems pl by simp
  have "pos + 1 + length str + payload_length rest \<le> length ?out2"
    using Cons.prems pl len2 by simp
  from Cons.IH [OF this]
  have rec: "copy_datum rest ?out2 (pos + 1 + length str) =
     Inr (take (pos + 1 + length str) ?out2 @ encode_fields rest @
            drop (pos + 1 + length str + payload_length rest) ?out2,
          pos + 1 + length str + payload_length rest)" .
  have t: "take (pos + 1 + length str) ?out2 = take pos out @ of_nat (length str) # str"
    using Cons.prems pl by (simp add: take_Suc_conv_app_nth)
  have d: "drop (pos + 1 + length str + payload_length rest) ?out2
             = drop (pos + payload_length (str # rest)) out"
    using Cons.prems pl by (simp add: add.commute add.left_commute)
  show ?case
    using w m rec t d pl by (simp add: encode_fields_Cons add.assoc)
qed

lemma build_rpc_response_eq:
  "build_rpc_response cmd datum add_checksum = Inr (response_frame cmd datum add_checksum)"
proof -
  let ?P = "payload_length datum"
  let ?E = "encode_fields datum"
  let ?Z = "replicate (3 + ?P) (0 :: 8 word)"
  let ?A = "cmd # replicate (2 + ?P) (0 :: 8 word)"
  let ?B = "[cmd, 0] @ ?E @ [0]"
  let ?C = "[cmd, of_nat ?P] @ ?E @ [0]"
  have fl: "foldl (\<lambda>n str. n + length str) (3 + length datum) datum = 3 + ?P"
    by (simp add: frame_length_eq payload_length_def)
  have r3: "replicate (3 + ?P) (0 :: 8 word) = 0 # replicate (2 + ?P) 0"
    by (simp add: numeral_3_eq_3)
  have w0: "wr ?Z 0 cmd = Inr ?A"
    unfolding r3 by (simp add: wr_def)
  have r2: "replicate (2 + ?P) (0 :: 8 word) = 0 # replicate ?P 0 @ [0]"
    by (simp add: numeral_2_eq_2 replicate_append_same)
  have "copy_datum datum ?A 2 = Inr (take 2 ?A @ ?E @ drop (2 + ?P) ?A, 2 + ?P)"
    by (rule copy_datum_ok) simp
  moreover have "take 2 ?A = [cmd, 0]"
    unfolding r2 by (simp add: numeral_2_eq_2)
  moreover have "drop (2 + ?P) ?A = [0]"
    unfolding r2 by (simp add: numeral_2_eq_2)
  ultimately have c: "copy_datum datum ?A 2 = Inr (?B, 2 + ?P)"
    by simp
  have w1: "wr ?B 1 (of_nat ?P) = Inr ?C"
    by (simp add: wr_def)
  have w2: "wr ?C (2 + ?P) v = Inr ([cmd, of_nat ?P] @ ?E @ [v])" for v
    by (simp add: wr_def length_encode_fields list_update_append nth_append)
  have ck: "response_checksum ?C = cmd + of_nat ?P + sum_list ?E"
    by (simp add: response_checksum_eq add.assoc)
  have a1: "2 + ?P - 2 = ?P" and a2: "3 + ?P - 1 = 2 + ?P"
    by simp_all
  show ?thesis
    unfolding build_rpc_response_def fl Let_def w0 sum.case c prod.case a1 w1 a2 w2 ck
      response_frame_def
    by simp
qed

lemma length_response_frame [simp]:
  "length (response_frame cmd datum b) = 3 + payload_length datum"
  by (simp add: response_frame_def length_encode_fields)

lemma response_frame_nth [simp]:
  "response_frame cmd datum b ! 0 = cmd"
  "response_frame cmd datum b ! 1 = of_nat (payload_length datum)"
  "response_frame cmd datum b ! Suc 0 = of_nat (payload_length datum)"
  by (simp_all add: response_frame_def)

lemma last_response_frame:
  "last (response_frame cmd datum b) =
     (if b then cmd + of_nat (payload_length datum) + sum_list (encode_fields datum) else 0)"
  by (simp add: response_frame_def)

lemma butlast_response_frame:
  "butlast (response_frame cmd datum b) = [cmd, of_nat (payload_length datum)] @ encode_fields datum"
  by (simp add: response_frame_def butlast_append)

lemma decode_response_eq:
  "decode_response h cmd datum add_checksum check_checksum =
     parse_improv_data_vec h (response_frame cmd datum add_checksum) check_checksum"
  by (simp add: decode_response_def build_rpc_response_eq)

lemma payload_region:
  "drop 2 (take (length (response_frame cmd datum b) - 1) (response_frame cmd datum b))
     = encode_fields datum"
  by (simp add: response_frame_def length_encode_fields)

lemma encode_fields_decodes:
  assumes "\<forall>str \<in> set datum. length str \<le> 255"
  shows "\<not> framing_violation (encode_fields datum) \<and>
         segments_before (encode_fields datum) = datum"
  using assms
proof (induction datum)
  case Nil
  show ?case by (simp add: encode_fields_def)
next
  case (Cons str rest)
  then have "unat (of_nat (length str) :: 8 word) = length str"
    by (simp add: unat_of_nat_byte)
  with Cons show ?case
    by (simp add: encode_fields_Cons)
qed

lemma decode_response_mismatch:
  assumes "\<not> check_checksum \<or> 256 \<le> payload_length datum"
  shows "decode_response h cmd datum add_checksum check_checksum =
           Some (Inr \<lparr>command = UNKNOWN h, data = []\<rparr>)"
proof -
  let ?P = "payload_length datum"
  have "?P mod 256 \<noteq> size_sub (Suc ?P) (if check_checksum then 1 else 0)"
  proof (cases check_checksum)
    case True
    with assms have "?P mod 256 < ?P" 
      by (meson less_le_trans mod_less_divisor zero_less_numeral)
    with True show ?thesis by (simp add: size_sub_def)
  next
    case False
    have "?P mod 256 \<le> ?P" by simp
    with False show ?thesis by (simp add: size_sub_def)
  qed
  then show ?thesis
    by (simp add: decode_response_eq parse_vec_unfold Let_def unat_of_nat_byte)
qed

lemma decode_response_diverges:
  assumes "payload_length datum = 254 \<or> payload_length datum = 255"
  shows "decode_response h cmd datum add_checksum True = None"
  unfolding decode_response_eq
  by (rule parse_vec_diverges) (use assms in \<open>auto simp: unat_of_nat_byte\<close>)

lemma decode_response_checked:
  assumes "payload_length datum \<le> 253"
  shows "decode_response h cmd datum True True =
     Some (parse_segments h (response_frame cmd datum True) (3 + payload_length datum) 1 cmd
             \<lparr>command = cmd, data = []\<rparr>)"
proof -
  let ?F = "response_frame cmd datum True"
  have "parse_improv_data_vec h ?F True = 
     (if sum_list (butlast ?F) \<noteq> last ?F
      then Some (Inr \<lparr>command = BAD_CHECKSUM h, data = []\<rparr>)
      else Some (parse_segments h ?F (length ?F) 1 (?F ! 0) \<lparr>command = ?F ! 0, data = []\<rparr>))"
    by (rule parse_vec_checked) (use assms in \<open>simp_all add: unat_of_nat_byte\<close>)
  then show ?thesis
    by (simp add: decode_response_eq butlast_response_frame last_response_frame)
qed

text \<open>
  Below 254 payload bytes the segments of a Wi-Fi-settings or custom frame come back as
  they were encoded.
\<close>

lemma roundtrip_segments:
  assumes "cmd = WIFI_SETTINGS h \<or> cmd = CUSTOM h" and "payload_length datum \<le> 253"
  shows "decode_response h cmd datum True True = Some (Inr \<lparr>command = cmd, data = datum\<rparr>)"
proof -
  let ?F = "response_frame cmd datum True"
  have small: "\<forall>str \<in> set datum. length str \<le> 255"
  proof
    fix str assume "str \<in> set datum"
    then have "length str \<le> sum_list (map length datum)"
      by (simp add: member_le_sum_list)
    with assms(2) show "length str \<le> 255" by (simp add: payload_length_def)
  qed
  have "segment_loop h ?F (length ?F - 1) 2 \<lparr>command = cmd, data = []\<rparr> =
     Inr (if framing_violation (drop 2 (take (length ?F - 1) ?F))
          then \<lparr>command = cmd, data = []\<rparr>\<lparr>command := UNKNOWN h,
                  data := data \<lparr>command = cmd, data = []\<rparr> @ segments_before (drop 2 (take (length ?F - 1) ?F))\<rparr>
          else \<lparr>command = cmd, data = []\<rparr>\<lparr>data := data \<lparr>command = cmd, data = []\<rparr> @ segments_before (drop 2 (take (length ?F - 1) ?F))\<rparr>)"
    by (rule segment_loop_eq) simp_all
  then have "segment_loop h ?F (2 + payload_length datum) 2 \<lparr>command = cmd, data = []\<rparr> =
     Inr \<lparr>command = cmd, data = datum\<rparr>"
    unfolding payload_region using encode_fields_decodes [OF small] by simp
  then show ?thesis
    using assms by (simp add: decode_response_checked parse_segments_def size_sub_def)
qed

subsection \<open>The stream synchronizer at the checksum position\<close>

lemma serial_checksum_loop_eq:
  "position \<le> length buffer \<Longrightarrow> i \<le> position \<Longrightarrow>
   serial_checksum_loop buffer position i acc =
     Inr (acc + sum_list (drop i (take position buffer)))"
proof (induction "position - i" arbitrary: i acc)
  case 0
  then show ?case by (subst serial_checksum_loop.simps) simp
next
  case (Suc n)
  then have lt: "i < position" by simp
  have d: "drop i (take position buffer) = buffer ! i # drop (i + 1) (take position buffer)"
    using lt Suc.prems(1) by (simp add: Cons_nth_drop_Suc [symmetric])
  have "serial_checksum_loop buffer position (i + 1) (acc + buffer ! i) =
     Inr (acc + buffer ! i + sum_list (drop (i + 1) (take position buffer)))"
    using Suc lt by (intro Suc.hyps(1)) simp_all
  then show ?case
    using lt Suc.prems(1) d
    by (subst serial_checksum_loop.simps) (simp add: rd_def add.assoc)
qed

lemma length_rpc_stream [simp]: "length (rpc_stream h rpc) = 9 + length rpc"
  by (simp add: rpc_stream_def)

lemma rpc_stream_nth:
  "rpc_stream h rpc ! 7 = TYPE_RPC h" "rpc_stream h rpc ! 8 = of_nat (length rpc)"
  by (simp_all add: rpc_stream_def)

lemma drop_rpc_stream: "drop 9 (rpc_stream h rpc @ rest) = rpc @ rest"
  by (simp add: rpc_stream_def)

lemma serial_checksum_position:
  assumes "length rpc \<le> 255" 
  shows "parse_improv_serial_byte h (9 + length rpc) (sum_list (rpc_stream h rpc))
           (rpc_stream h rpc @ rest) callback =
     (case parse_improv_data h (rpc @ rest) (length rpc) False of
        None \<Rightarrow> None
      | Some (Inl e) \<Rightarrow> Some (Inl e)
      | Some (Inr cmd) \<Rightarrow> Some (Inr (callback cmd, [Callback cmd])))"
proof -
  let ?S = "rpc_stream h rpc @ rest"
  have r: "rd ?S 7 = Inr (TYPE_RPC h)" "rd ?S 8 = Inr (of_nat (length rpc))"
    by (simp_all add: rd_def nth_append rpc_stream_nth)
  have u: "unat (of_nat (length rpc) :: 8 word) = length rpc"
    using assms by (simp add: unat_of_nat_byte)
  have "serial_checksum_loop ?S (9 + length rpc) 0 0 =
      Inr (0 + sum_list (drop 0 (take (9 + length rpc) ?S)))"
    by (rule serial_checksum_loop_eq) simp_all
  then have c: "serial_checksum_loop ?S (9 + length rpc) 0 0 = Inr (sum_list (rpc_stream h rpc))"
    by simp
  show ?thesis
    unfolding parse_improv_serial_byte_def r sum.case u c drop_rpc_stream
    by simp
qed

text \<open>
  With the bytes at the lower positions as buffer, the synchronizer reads inside the
  buffer at every position, unless the position is the checksum position of a frame
  whose length byte is 0 or 1.
\<close>

lemma serial_reads_within_history:
  assumes "length buffer = position"
    and "position = 9 + unat (buffer ! 8) \<longrightarrow> 2 \<le> unat (buffer ! 8)"
  shows "\<exists>ret calls. parse_improv_serial_byte h position byte buffer callback =
           Some (Inr (ret, calls))"
proof (cases "position \<le> 8")
  case True
  then show ?thesis
    by (auto simp: parse_improv_serial_byte_def)
next
  case False
  then have r: "rd buffer 7 = Inr (buffer ! 7)" "rd buffer 8 = Inr (buffer ! 8)"
    using assms(1) by (simp_all add: rd_def)
  show ?thesis
  proof (cases "position = 9 + unat (buffer ! 8)")
    case ne: False
    with False show ?thesis
      by (auto simp: parse_improv_serial_byte_def r)
  next
    case True
    with assms(2) have two: "2 \<le> unat (buffer ! 8)" by simp
    have c: "serial_checksum_loop buffer position 0 0 =
               Inr (0 + sum_list (drop 0 (take position buffer)))"
      by (rule serial_checksum_loop_eq) (use assms(1) in simp_all)
    have len: "length (drop 9 buffer) = unat (buffer ! 8)"
      using True assms(1) by simp
    have "\<exists>r. parse_improv_data_vec h (drop 9 buffer) False = Some (Inr r)"
      by (rule parse_vec_returns) (use two len in simp_all)
    then obtain cmd where "parse_improv_data h (drop 9 buffer) (unat (buffer ! 8)) False
        = Some (Inr cmd)"
      unfolding parse_improv_data_vec_def len by blast
    then show ?thesis
      using True False c by (auto simp: parse_improv_serial_byte_def r)
  qed
qed

subsection \<open>Accepted frames\<close>

lemma accepts_valid:
  assumes "accepts h dat"
  shows "3 \<le> length dat \<and> length dat \<le> 256 \<and> unat (dat ! 1) = length dat - 3 \<and>
         sum_list (butlast dat) = last dat"
proof -
  have two: "2 \<le> length dat"
  proof (rule ccontr)
    assume "\<not> 2 \<le> length dat"
    then have "length dat = 0 \<or> length dat = 1" by linarith
    then have "\<exists>f. parse_improv_data_vec h dat True = Some (Inl f)"
      by (auto simp: parse_improv_data_vec_def parse_improv_data_def rd_def)
    with assms show False by (auto simp: accepts_def)
  qed
  have lenbyte: "unat (dat ! 1) = size_sub (length dat - 2) 1"
  proof (rule ccontr)
    assume "unat (dat ! 1) \<noteq> size_sub (length dat - 2) 1"
    then have "parse_improv_data_vec h dat True = Some (Inr \<lparr>command = UNKNOWN h, data = []\<rparr>)"
      using two by (simp add: parse_vec_unfold Let_def)
    with assms show False by (simp add: accepts_def)
  qed
  have three: "3 \<le> length dat"
  proof (rule ccontr)
    assume "\<not> 3 \<le> length dat"
    with two have "length dat = 2" by simp
    with lenbyte unat_byte_less [of "dat ! 1"] show False by (simp add: size_sub_def)
  qed
  with lenbyte have lb: "unat (dat ! 1) = length dat - 3" by (simp add: size_sub_def)
  have le: "length dat \<le> 256"
  proof (rule ccontr)
    assume "\<not> length dat \<le> 256"
    then have "parse_improv_data_vec h dat True = None"
      using lb by (intro parse_vec_diverges) simp_all
    with assms show False by (simp add: accepts_def)
  qed
  have "sum_list (butlast dat) = last dat"
  proof (rule ccontr)
    assume "sum_list (butlast dat) \<noteq> last dat"
    then have "parse_improv_data_vec h dat True = Some (Inr \<lparr>command = BAD_CHECKSUM h, data = []\<rparr>)"
      using three le lb by (simp add: parse_vec_checked)
    with assms show False by (simp add: accepts_def)
  qed
  with three le lb show ?thesis by simp
qed

section \<open>The claims\<close>

subsection \<open>C1: the end-to-end example\<close>

text \<open>
  Claim C1 feeds the 11-byte stream \<^verbatim>\<open>I M P R O V <version> <TYPE_RPC> 0x01 <cmd_byte>
  <checksum>\<close> and expects the success callback with the command \<^verbatim>\<open>cmd_byte\<close> and no
  data. With the sample header and \<^verbatim>\<open>cmd_byte = 0x02\<close> the call at position 10 does not
  do that: on the history of the ten earlier bytes the nested \<^verbatim>\<open>parse_improv_data\<close>
  reads \<^verbatim>\<open>data[1]\<close>, which is \<^verbatim>\<open>buffer[10]\<close>, outside the history; and when the buffer
  also holds the checksum byte at index 10, the length check fails (\<^verbatim>\<open>1 - 2\<close> wraps
  around) and the callback receives \<^verbatim>\<open>UNKNOWN\<close>.
\<close>

theorem rpc_frame_one_byte_counterexample:
  "parse_improv_serial_byte improv_h 10 (sum_list (rpc_stream improv_h [0x02]))
       (rpc_stream improv_h [0x02]) (\<lambda>c. True)
     \<noteq> Some (Inr (True, [Callback \<lparr>command = 0x02, data = []\<rparr>])) \<and>
   parse_improv_serial_byte improv_h 10 (sum_list (rpc_stream improv_h [0x02]))
       (rpc_stream improv_h [0x02] @ [sum_list (rpc_stream improv_h [0x02])]) (\<lambda>c. True)
     = Some (Inr (True, [Callback \<lparr>command = UNKNOWN improv_h, data = []\<rparr>])) \<and>
   UNKNOWN improv_h \<noteq> 0x02"
  using serial_checksum_position [of "[0x02]" improv_h "[]" "\<lambda>c. True"]
    serial_checksum_position [of "[0x02]" improv_h "[sum_list (rpc_stream improv_h [0x02])]" "\<lambda>c. True"]
  by (simp add: parse_short_buffer parse_short_length) (simp add: improv_h_def)

text \<open>
  Claim C1 as amended: the embedded RPC command has a length byte of its own, so the
  stream is the 12 bytes \<^verbatim>\<open>I M P R O V <version> <TYPE_RPC> 0x02 <cmd_byte> 0x00
  <checksum>\<close>, the checksum being the 8-bit sum of the 11 bytes before it. Fed one byte
  per call, with the bytes at lower positions as history, each of the calls at the
  positions 0 to 10 returns \<^verbatim>\<open>true\<close> without a callback, and the call at position 11
  invokes the success callback once, with the command \<^verbatim>\<open>cmd_byte\<close> and no data, and
  returns what the callback returns.
\<close>

theorem rpc_frame_delivered:
  "parse_improv_serial_byte h 11 (sum_list (rpc_stream h [cmd_byte, 0]))
       (rpc_stream h [cmd_byte, 0]) callback =
     Some (Inr (callback \<lparr>command = cmd_byte, data = []\<rparr>,
                [Callback \<lparr>command = cmd_byte, data = []\<rparr>])) \<and>
   (\<forall>p < 11. parse_improv_serial_byte h p (rpc_stream h [cmd_byte, 0] ! p)
       (take p (rpc_stream h [cmd_byte, 0])) callback = Some (Inr (True, [])))"
proof
  have "parse_improv_data_vec h [cmd_byte, 0] False =
     Some (parse_segments h [cmd_byte, 0] (length [cmd_byte, 0 :: 8 word]) 0 ([cmd_byte, 0] ! 0)
             \<lparr>command = [cmd_byte, 0] ! 0, data = []\<rparr>)"
    by (rule parse_vec_unchecked) simp_all
  then have "parse_improv_data h [cmd_byte, 0] (length [cmd_byte, 0 :: 8 word]) False =
          Some (Inr \<lparr>command = cmd_byte, data = []\<rparr>)"
    by (simp add: parse_improv_data_vec_def parse_segments_def size_sub_def segment_loop_done)
  then show "parse_improv_serial_byte h 11 (sum_list (rpc_stream h [cmd_byte, 0]))
       (rpc_stream h [cmd_byte, 0]) callback =
     Some (Inr (callback \<lparr>command = cmd_byte, data = []\<rparr>,
                [Callback \<lparr>command = cmd_byte, data = []\<rparr>]))"
    using serial_checksum_position [of "[cmd_byte, 0]" h "[]" callback] by simp
next
  show "\<forall>p < 11. parse_improv_serial_byte h p (rpc_stream h [cmd_byte, 0] ! p)
       (take p (rpc_stream h [cmd_byte, 0])) callback = Some (Inr (True, []))"
  proof (intro allI impI)
    fix p :: nat assume p: "p < 11"
    let ?goal = "parse_improv_serial_byte h p (rpc_stream h [cmd_byte, 0] ! p)
       (take p (rpc_stream h [cmd_byte, 0])) callback = Some (Inr (True, []))"
    show ?goal
    proof (cases "p < 6")
      case True
      then consider "p = 0" | "p = 1" | "p = 2" | "p = 3" | "p = 4" | "p = 5"
        by linarith
      then show ?thesis
        by cases (simp_all add: parse_improv_serial_byte_def rpc_stream_def)
    next
      case False
      with p consider "p = 6" | "p = 7" | "p = 8" | "p = 9" | "p = 10"
        by linarith
      then show ?thesis
        by cases (simp_all add: parse_improv_serial_byte_def rpc_stream_def rd_def)
    qed
  qed
qed

theorem rpc_frame_delivered_witness:
  "parse_improv_serial_byte improv_h 11 (sum_list (rpc_stream improv_h [0x02, 0]))
     (rpc_stream improv_h [0x02, 0]) (\<lambda>c. True) =
     Some (Inr (True, [Callback \<lparr>command = 0x02, data = []\<rparr>])) \<and>
   parse_improv_serial_byte improv_h 9 0x02 (take 9 (rpc_stream improv_h [0x02, 0])) (\<lambda>c. True) =
     Some (Inr (True, []))"
  using rpc_frame_delivered [of improv_h "0x02" "\<lambda>c. True", THEN conjunct1]
    rpc_frame_delivered [of improv_h "0x02" "\<lambda>c. True", THEN conjunct2, THEN spec, of 9]
  by (simp add: rpc_stream_def)

subsection \<open>C2: termination of \<^verbatim>\<open>parse_improv_data\<close>\<close>

text \<open>
  Claim C2 says that \<^verbatim>\<open>parse_improv_data\<close> returns on every input of at least two
  bytes, and that its summation loop terminates for frames of 257 bytes and more. The
  code does not: on the 257-byte frame with command 2, length byte 254, a zero payload
  and a zero checksum byte, the length check passes and the byte counter of the loop
  never reaches \<^verbatim>\<open>length - 1 = 256\<close>, so the call does not return. (Lemma
  \<open>parse_vec_returns\<close> above: on every other input of at least two bytes it returns.)
\<close>

theorem parse_improv_data_257_never_returns:
  "parse_improv_data_vec h ([0x02, 254] @ replicate 255 0) True = None"
  by (rule parse_vec_diverges) simp_all

subsection \<open>C3: reads within the history buffer\<close>

text \<open>
  Claim C3 says that the nested \<^verbatim>\<open>parse_improv_data\<close> call at the checksum position
  reads only history positions below the current one, also for \<^verbatim>\<open>data_len\<close> 0 and 1.
  The code reads \<^verbatim>\<open>data[0]\<close> and \<^verbatim>\<open>data[1]\<close> before it looks at the length: with
  \<^verbatim>\<open>data_len = 0\<close> (checksum position 9, a history of 9 bytes) the read of \<^verbatim>\<open>data[0]\<close>
  is \<^verbatim>\<open>buffer[9]\<close>, and with \<^verbatim>\<open>data_len = 1\<close> (checksum position 10, a history of 10
  bytes) the read of \<^verbatim>\<open>data[1]\<close> is \<^verbatim>\<open>buffer[10]\<close>; both lie outside the history.
  (Lemma \<open>serial_reads_within_history\<close> above: for \<^verbatim>\<open>data_len\<close> of 2 and more every
  read is inside the history.)
\<close>

theorem nested_parse_reads_beyond_history:
  "parse_improv_serial_byte h 9 (sum_list (rpc_stream h [])) (rpc_stream h []) callback =
     Some (Inl (OutOfBounds 0)) \<and>
   parse_improv_serial_byte h 10 (sum_list (rpc_stream h [cmd_byte])) (rpc_stream h [cmd_byte])
     callback = Some (Inl (OutOfBounds 1))"
  using serial_checksum_position [of "[]" h "[]" callback]
    serial_checksum_position [of "[cmd_byte]" h "[]" callback]
  by (simp add: parse_short_buffer)

subsection \<open>C4: segment-framing violations\<close>

text \<open>
  Claim C4 says that a segment-framing violation yields \<^verbatim>\<open>UNKNOWN\<close> with empty data.
  The frame \<^verbatim>\<open>01 03 01 41 05\<close> (Wi-Fi settings, three payload bytes, decoded without
  checksum) holds the segment \<^verbatim>\<open>41\<close> and then a length byte 5 with nothing after it:
  the result is \<^verbatim>\<open>UNKNOWN\<close>, and its data still hold the segment \<^verbatim>\<open>41\<close>.
\<close>

theorem segment_violation_counterexample:
  "framing_violation (payload [0x01, 0x03, 0x01, 0x41, 0x05]) \<and>
   parse_improv_data_vec improv_h [0x01, 0x03, 0x01, 0x41, 0x05] False =
     Some (Inr \<lparr>command = UNKNOWN improv_h, data = [[0x41]]\<rparr>) \<and>
   parse_improv_data_vec improv_h [0x01, 0x03, 0x01, 0x41, 0x05] False \<noteq>
     Some (Inr \<lparr>command = UNKNOWN improv_h, data = []\<rparr>)"
  by (simp add: payload_def parse_vec_unfold parse_segments_def size_sub_def improv_h_def
      segment_loop.simps rd_def rd_range_def Let_def)

text \<open>
  Claim C4 as amended: for a frame that passes the length check and, when the checksum
  is verified, the checksum check, whose command is Wi-Fi settings or custom and whose
  payload has a segment-framing violation, \<^verbatim>\<open>parse_improv_data\<close> returns the command
  \<^verbatim>\<open>UNKNOWN\<close>; its data are the segments decoded before the violation, and are empty
  when the first segment already violates the framing.
\<close>

theorem segment_violation_keeps_segments:
  assumes "unat (dat ! 1) + 2 + (if check_checksum then 1 else 0) = length dat"
    and "check_checksum \<longrightarrow> length dat \<le> 256 \<and> sum_list (butlast dat) = last dat"
    and "dat ! 0 = WIFI_SETTINGS h \<or> dat ! 0 = CUSTOM h"
    and "framing_violation (payload dat)"
  shows "parse_improv_data_vec h dat check_checksum =
           Some (Inr \<lparr>command = UNKNOWN h, data = segments_before (payload dat)\<rparr>)"
proof -
  let ?off = "if check_checksum then 1 else 0 :: nat"
  let ?ic = "\<lparr>command = dat ! 0, data = []\<rparr>"
  have len: "2 + ?off \<le> length dat" using assms(1) by simp
  have n: "length dat - ?off - 2 = unat (dat ! 1)"
    using assms(1) by (cases check_checksum) simp_all
  have pay: "drop 2 (take (length dat - ?off) dat) = payload dat"
    by (simp only: drop_take n payload_def)
  have "segment_loop h dat (length dat - ?off) 2 ?ic =
     Inr (if framing_violation (drop 2 (take (length dat - ?off) dat))
          then ?ic\<lparr>command := UNKNOWN h,
                  data := data ?ic @ segments_before (drop 2 (take (length dat - ?off) dat))\<rparr>
          else ?ic\<lparr>data := data ?ic @ segments_before (drop 2 (take (length dat - ?off) dat))\<rparr>)"
    by (rule segment_loop_eq) (use len in simp_all)
  then have loop: "segment_loop h dat (length dat - ?off) 2 ?ic =
      Inr \<lparr>command = UNKNOWN h, data = segments_before (payload dat)\<rparr>"
    unfolding pay using assms(4) by simp
  have seg: "parse_segments h dat (length dat) ?off (dat ! 0) ?ic =
      Inr \<lparr>command = UNKNOWN h, data = segments_before (payload dat)\<rparr>"
    using assms(3) loop len by (simp add: parse_segments_def size_sub_def)
  show ?thesis
  proof (cases check_checksum)
    case True
    then have "parse_improv_data_vec h dat True =
       Some (parse_segments h dat (length dat) 1 (dat ! 0) ?ic)"
      using assms(1,2) by (simp add: parse_vec_checked)
    with True seg show ?thesis by simp
  next
    case False
    then have "parse_improv_data_vec h dat False =
       Some (parse_segments h dat (length dat) 0 (dat ! 0) ?ic)"
      using assms(1) by (simp add: parse_vec_unchecked)
    with False seg show ?thesis by simp
  qed
qed

theorem segment_violation_keeps_segments_witness:
  "parse_improv_data_vec improv_h [0x01, 0x03, 0x01, 0x41, 0x05, 0x4B] True =
     Some (Inr \<lparr>command = UNKNOWN improv_h, data = [[0x41]]\<rparr>)"
  using segment_violation_keeps_segments [of "[0x01, 0x03, 0x01, 0x41, 0x05, 0x4B]" True improv_h]
  by (simp add: payload_def improv_h_def)

subsection \<open>C5: checksum sensitivity\<close>

text \<open>
  Claim C5 says that every single-bit flip in an accepted checksummed frame, unless the
  stored checksum still equals the recomputed sum, yields \<^verbatim>\<open>BAD_CHECKSUM\<close>. In the
  accepted frame \<^verbatim>\<open>02 00 02\<close>, flipping bit 0 of the length byte gives \<^verbatim>\<open>02 01 02\<close>:
  the stored checksum 2 is not the recomputed sum 3, and the decoder returns
  \<^verbatim>\<open>UNKNOWN\<close>, because the length check comes before the checksum check.
\<close>

theorem single_bit_flip_counterexample:
  "accepts improv_h [0x02, 0x00, 0x02] \<and>
   last (flip_frame_bit [0x02, 0x00, 0x02] 1 0) \<noteq> sum_list (butlast (flip_frame_bit [0x02, 0x00, 0x02] 1 0)) \<and>
   parse_improv_data_vec improv_h (flip_frame_bit [0x02, 0x00, 0x02] 1 0) True =
     Some (Inr \<lparr>command = UNKNOWN improv_h, data = []\<rparr>) \<and>
   parse_improv_data_vec improv_h (flip_frame_bit [0x02, 0x00, 0x02] 1 0) True \<noteq>
     Some (Inr \<lparr>command = BAD_CHECKSUM improv_h, data = []\<rparr>)"
proof -
  have f: "flip_frame_bit [0x02, 0x00, 0x02] 1 0 = [0x02, 0x01, 0x02]"
    by (simp add: flip_frame_bit_def flip_bit_eq_xor)
  have a: "accepts improv_h [0x02, 0x00, 0x02]"
    by (simp add: accepts_def parse_vec_checked parse_segments_def improv_h_def)
  have p: "parse_improv_data_vec improv_h [0x02, 0x01, 0x02] True =
     Some (Inr \<lparr>command = UNKNOWN improv_h, data = []\<rparr>)"
    by (simp add: parse_vec_unfold size_sub_def)
  show ?thesis
    unfolding f using a p by (simp add: improv_h_def)
qed

text \<open>
  Claim C5 as amended: in an accepted checksummed frame, flipping any single bit of any
  byte other than the length byte (index 1) yields \<^verbatim>\<open>BAD_CHECKSUM\<close> with empty data;
  flipping a bit of the length byte yields \<^verbatim>\<open>UNKNOWN\<close> with empty data.
\<close>

theorem single_bit_flip_rejected:
  assumes "accepts h dat" and "i < length dat" and "k < 8"
  shows "parse_improv_data_vec h (flip_frame_bit dat i k) True =
           Some (Inr \<lparr>command = (if i = 1 then UNKNOWN h else BAD_CHECKSUM h), data = []\<rparr>)"
proof -
  let ?dat' = "flip_frame_bit dat i k"
  from accepts_valid [OF assms(1)]
  have three: "3 \<le> length dat" and le: "length dat \<le> 256"
    and lb: "unat (dat ! 1) = length dat - 3" and ck: "sum_list (butlast dat) = last dat"
    by simp_all
  have len': "length ?dat' = length dat" by (simp add: flip_frame_bit_def)
  have neq: "flip_bit k (dat ! i) \<noteq> dat ! i" using assms(3) by (rule flip_bit_byte_neq)
  have ne: "dat \<noteq> []" using three by auto
  show ?thesis
  proof (cases "i = 1")
    case True
    then have "?dat' ! 1 \<noteq> dat ! 1"
      using neq three by (simp add: flip_frame_bit_def)
    then have "unat (?dat' ! 1) \<noteq> length dat - 3"
      using lb by (metis word_unat_eq_iff)
    then have "unat (?dat' ! 1) \<noteq> size_sub (length ?dat' - 2) 1"
      using three len' by (simp add: size_sub_frame)
    then have "parse_improv_data_vec h ?dat' True = Some (Inr \<lparr>command = UNKNOWN h, data = []\<rparr>)"
      using three len' by (simp add: parse_vec_unfold Let_def)
    with True show ?thesis by simp
  next
    case False
    then have lb': "unat (?dat' ! 1) = length ?dat' - 3"
      using lb len' by (simp add: flip_frame_bit_def)
    have "sum_list (butlast ?dat') \<noteq> last ?dat'"
    proof (cases "i = length dat - 1")
      case True
      then have "butlast ?dat' = butlast dat"
        by (simp add: flip_frame_bit_def butlast_list_update)
      moreover have "last ?dat' = flip_bit k (dat ! i)"
        using True ne by (simp add: flip_frame_bit_def last_list_update)
      moreover have "last dat = dat ! i"
        using True ne by (simp add: last_conv_nth)
      ultimately show ?thesis using ck neq by simp
    next
      case ni: False
      then have ib: "i < length (butlast dat)" using assms(2) by simp
      have "butlast ?dat' = (butlast dat)[i := flip_bit k (dat ! i)]"
        using ni by (simp add: flip_frame_bit_def butlast_list_update)
      then have "sum_list (butlast ?dat') = sum_list (butlast dat) - dat ! i + flip_bit k (dat ! i)"
        using ib by (simp add: sum_list_update_word nth_butlast)
      moreover have "last ?dat' = last dat"
        using ni ne by (simp add: flip_frame_bit_def last_list_update)
      ultimately show ?thesis using ck neq by simp
    qed
    then have "parse_improv_data_vec h ?dat' True = Some (Inr \<lparr>command = BAD_CHECKSUM h, data = []\<rparr>)"
      using three le lb' len' by (simp add: parse_vec_checked)
    with False show ?thesis by simp
  qed
qed

theorem single_bit_flip_rejected_witness:
  "parse_improv_data_vec improv_h (flip_frame_bit [0x02, 0x00, 0x02] 0 0) True =
     Some (Inr \<lparr>command = BAD_CHECKSUM improv_h, data = []\<rparr>) \<and>
   parse_improv_data_vec improv_h (flip_frame_bit [0x02, 0x00, 0x02] 2 7) True =
     Some (Inr \<lparr>command = BAD_CHECKSUM improv_h, data = []\<rparr>) \<and>
   parse_improv_data_vec improv_h (flip_frame_bit [0x02, 0x00, 0x02] 1 7) True =
     Some (Inr \<lparr>command = UNKNOWN improv_h, data = []\<rparr>)"
proof -
  have a: "accepts improv_h [0x02, 0x00, 0x02]"
    by (simp add: accepts_def parse_vec_checked parse_segments_def improv_h_def)
  show ?thesis
    using single_bit_flip_rejected [OF a, of 0 0] single_bit_flip_rejected [OF a, of 2 7]
      single_bit_flip_rejected [OF a, of 1 7]
    by simp
qed

subsection \<open>C6: round trip of single-value commands\<close>

text \<open>
  Claim C6 says that for a single-value command and fields of at most 255 bytes each,
  decoding the encoder's checksummed output gives back the command with empty data. Two
  fields of 200 bytes have a payload of 402 bytes; the encoder stores the length byte
  \<^verbatim>\<open>402 mod 256\<close>, and the decoder rejects the frame as \<^verbatim>\<open>UNKNOWN\<close>.
\<close>

theorem roundtrip_single_value_counterexample:
  "length (replicate 200 (0x41 :: 8 word)) \<le> 255 \<and>
   0x02 \<noteq> WIFI_SETTINGS improv_h \<and> 0x02 \<noteq> CUSTOM improv_h \<and>
   decode_response improv_h 0x02 [replicate 200 0x41, replicate 200 0x41] True True
     \<noteq> Some (Inr \<lparr>command = 0x02, data = []\<rparr>)"
proof -
  have "payload_length [replicate 200 (0x41 :: 8 word), replicate 200 0x41] = 402"
    by (simp add: payload_length_def)
  then have "decode_response improv_h 0x02 [replicate 200 0x41, replicate 200 0x41] True True
     = Some (Inr \<lparr>command = UNKNOWN improv_h, data = []\<rparr>)"
    by (intro decode_response_mismatch) simp
  then show ?thesis
    by (simp add: improv_h_def)
qed

text \<open>
  Claim C6 as amended: for a command that is neither Wi-Fi settings nor custom, and
  fields whose cumulative payload (one length byte per field plus the field bytes) is at
  most 253 bytes, decoding the encoder's checksummed output with checksum verification
  returns the command with empty data, and the last byte of the encoded frame is the
  8-bit sum of the bytes before it.
\<close>

theorem roundtrip_single_value:
  assumes "cmd \<noteq> WIFI_SETTINGS h" and "cmd \<noteq> CUSTOM h" and "payload_length datum \<le> 253"
  shows "decode_response h cmd datum True True = Some (Inr \<lparr>command = cmd, data = []\<rparr>) \<and>
         (\<exists>out. build_rpc_response cmd datum True = Inr out \<and> last out = sum_list (butlast out))"
  using assms
  by (simp add: decode_response_checked parse_segments_def build_rpc_response_eq
      butlast_response_frame last_response_frame)

theorem roundtrip_single_value_witness:
  "decode_response improv_h 0x02 [[0x41, 0x42], [0x43]] True True =
      Some (Inr \<lparr>command = 0x02, data = []\<rparr>) \<and>
   build_rpc_response 0x02 [[0x41, 0x42], [0x43]] True =
      Inr [0x02, 0x05, 0x02, 0x41, 0x42, 0x01, 0x43, 0xD0]"
  using roundtrip_single_value [of "0x02" improv_h "[[0x41, 0x42], [0x43]]"]
  by (simp add: build_rpc_response_eq response_frame_def encode_fields_def payload_length_def
      improv_h_def)

subsection \<open>C7: length mismatch\<close>

text \<open>
  Claim C7: for a buffer of at least two bytes and either value of the flag, when the
  length byte (index 1) differs from \<^verbatim>\<open>total_bytes - 2 - checksum_offset\<close>, the result is
  the command \<^verbatim>\<open>UNKNOWN\<close> with empty data, whatever else the buffer holds. The
  disequation is written without subtraction: the length byte plus 2 plus the offset is
  not the buffer size.
\<close>

theorem length_mismatch_rejected:
  assumes "2 \<le> length dat"
    and "unat (dat ! 1) + 2 + (if check_checksum then 1 else 0) \<noteq> length dat"
  shows "parse_improv_data_vec h dat check_checksum =
           Some (Inr \<lparr>command = UNKNOWN h, data = []\<rparr>)"
proof -
  have "unat (dat ! 1) \<noteq> size_sub (length dat - 2) (if check_checksum then 1 else 0)"
    using assms unat_byte_less [of "dat ! 1"] by (auto simp: size_sub_def)
  then show ?thesis
    using assms(1) by (simp add: parse_vec_unfold Let_def)
qed

theorem length_mismatch_rejected_witness:
  "parse_improv_data_vec improv_h [0x02, 0x05, 0x07] True =
     Some (Inr \<lparr>command = UNKNOWN improv_h, data = []\<rparr>) \<and>
   parse_improv_data_vec improv_h [0x02, 0x00] True =
     Some (Inr \<lparr>command = UNKNOWN improv_h, data = []\<rparr>)"
  using length_mismatch_rejected [of "[0x02, 0x05, 0x07]" True improv_h]
    length_mismatch_rejected [of "[0x02, 0x00]" True improv_h]
  by simp

subsection \<open>C8: round trip of segments\<close>

text \<open>
  Claim C8 says that segments with a cumulative payload of at most 255 bytes survive
  encoding with checksum and decoding with checksum. One segment of 253 bytes has a
  payload of 254 bytes and a frame of 257 bytes, on which the summation loop of the
  decoder does not terminate: the decoder never returns. (Lemma \<open>roundtrip_segments\<close>
  above is the round trip for payloads of at most 253 bytes.)
\<close>

theorem roundtrip_segments_254_never_returns:
  "decode_response h (WIFI_SETTINGS h) [replicate 253 0x41] True True = None"
  by (rule decode_response_diverges) (simp add: payload_length_def)

subsection \<open>C9: preamble and version\<close>

text \<open>
  Claim C9: at the positions 0 to 6 the stream synchronizer returns \<^verbatim>\<open>true\<close> exactly
  when the byte is the character of \<^verbatim>\<open>"IMPROV"\<close> at that position (positions 0 to 5)
  or the protocol version (position 6); when it returns \<^verbatim>\<open>false\<close> neither callback
  has been called.
\<close>

theorem preamble_positions:
  assumes "p \<le> 6"
  shows "parse_improv_serial_byte h p b buffer callback =
           Some (Inr (b = (map ascii ''IMPROV'' @ [IMPROV_SERIAL_VERSION h]) ! p, []))"
proof -
  from assms consider "p = 0" | "p = 1" | "p = 2" | "p = 3" | "p = 4" | "p = 5" | "p = 6"
    by linarith
  then show ?thesis
    by cases (simp_all add: parse_improv_serial_byte_def)
qed

theorem preamble_positions_witness:
  "parse_improv_serial_byte improv_h 3 0x52 [0x49, 0x4D, 0x50] (\<lambda>c. True) = Some (Inr (True, [])) \<and>
   parse_improv_serial_byte improv_h 3 0x58 [0x49, 0x4D, 0x50] (\<lambda>c. True) = Some (Inr (False, [])) \<and>
   parse_improv_serial_byte improv_h 6 0x01 [0x49, 0x4D, 0x50, 0x52, 0x4F, 0x56] (\<lambda>c. True)
     = Some (Inr (True, []))"
  using preamble_positions [where p = 3 and h = improv_h and b = "0x52"]
    preamble_positions [where p = 3 and h = improv_h and b = "0x58"]
    preamble_positions [where p = 6 and h = improv_h and b = "0x01"]
  by (simp add: ascii_def improv_h_def)

subsection \<open>C10: the size of the built frame\<close>

text \<open>
  Claim C10: \<^verbatim>\<open>build_rpc_response\<close> returns 3 bytes plus one byte per field plus the
  field bytes, whatever the flag; without checksum the last byte is 0 and the length
  byte does not count it, so decoding the frame without checksum verification returns
  \<^verbatim>\<open>UNKNOWN\<close>.
\<close>

theorem build_rpc_response_size:
  "(\<exists>out. build_rpc_response cmd datum add_checksum = Inr out \<and>
          length out = 3 + length datum + sum_list (map length datum)) \<and>
   (\<exists>out. build_rpc_response cmd datum False = Inr out \<and> last out = 0 \<and>
          out ! 1 = of_nat (length out - 3)) \<and>
   decode_response h cmd datum False False = Some (Inr \<lparr>command = UNKNOWN h, data = []\<rparr>)"
  by (simp add: build_rpc_response_eq last_response_frame decode_response_mismatch)
    (simp add: payload_length_def)

theorem build_rpc_response_size_witness:
  "build_rpc_response 0x02 [[0x41, 0x42], [0x43]] False =
      Inr [0x02, 0x05, 0x02, 0x41, 0x42, 0x01, 0x43, 0x00] \<and>
   decode_response improv_h 0x02 [[0x41, 0x42], [0x43]] False False =
      Some (Inr \<lparr>command = UNKNOWN improv_h, data = []\<rparr>)"
  using build_rpc_response_size [of "0x02" "[[0x41, 0x42], [0x43]]" False improv_h]
  by (simp add: build_rpc_response_eq response_frame_def encode_fields_def payload_length_def)

end
